theory Spec2Isabelle
  imports Complex_Main "HOL-Library.AList" "HOL-Library.Sublist"
begin

section \<open>Data model\<close>

text \<open>
  A chunk is a pair of a text and a page number (\<open>Tuple[str, int]\<close>).  An embedding is a
  dense numeric vector; the floating-point entries are idealised as rationals.  A Python
  \<open>dict\<close> is an association list with distinct keys in insertion order: assignment
  \<open>d[k] = v\<close> is \<open>AList.update k v\<close> (an existing key keeps its place, a new one goes to
  the end), lookup is \<open>map_of\<close>.
\<close>

type_synonym chunk = "string \<times> int"
type_synonym vec = "rat list"

datatype error =
    ModelNotTrained   \<comment> \<open>\<open>ValueError("Model not trained. Call fit() first.")\<close>\<close>
  | GensimError       \<comment> \<open>an exception raised inside \<open>build_vocab\<close> or \<open>train\<close>\<close>
  | ShapeError        \<comment> \<open>\<open>index.add\<close> on an array that is not two-dimensional\<close>
  | AssertionError    \<comment> \<open>\<open>index.search\<close> asked for \<open>k = 0\<close> neighbours\<close>
  | IndexError
  | KeyError

text \<open>
  The gensim library is outside the repository.  It is a parameter of the model: the
  preprocessing function, the constructor of an untrained \<open>Doc2Vec\<close> object (with the
  fixed \<open>vector_size\<close>, \<open>min_count\<close> and \<open>epochs\<close>), the two training calls, which mutate
  the object and may raise (the result holds the exception, if any, and the object as the
  call leaves it), and inference, taken to be deterministic, which may raise as well (it
  does on an object that was never trained).
\<close>

type_synonym tagged_document = "string list \<times> nat list"

record 'm gensim =
  simple_preprocess :: "string \<Rightarrow> string list"
  Doc2Vec :: "'m"
  build_vocab :: "'m \<Rightarrow> tagged_document list \<Rightarrow> error option \<times> 'm"
  train :: "'m \<Rightarrow> tagged_document list \<Rightarrow> error option \<times> 'm"
  infer_vector :: "'m \<Rightarrow> string list \<Rightarrow> error + vec"

text \<open>Durable storage: each of the three files is missing, unreadable, or holds a value.\<close>

datatype 'a artifact = Missing | Corrupt | Stored 'a

record pickled =
  pk_metadata :: "(string \<times> chunk list) list option"
  pk_doc_ids :: "string list option"
  pk_filenames :: "(string \<times> string) list option"

record 'm disk =
  model_file :: "'m artifact"        \<comment> \<open>\<open>data/doc2vec_model\<close>\<close>
  index_file :: "vec list artifact"  \<comment> \<open>\<open>data/faiss.index\<close>\<close>
  state_file :: "pickled artifact"   \<comment> \<open>\<open>data/vector_store_state.pkl\<close>\<close>

record 'm Doc2VecEmbeddings =
  model :: "'m option"

record 'm FAISSVectorStore =
  embeddings :: "'m Doc2VecEmbeddings"
  index :: "vec list"
  metadata :: "(string \<times> chunk list) list"
  doc_ids :: "string list"
  filenames :: "(string \<times> string) list"

section \<open>Embedding model manager (embeddings.py)\<close>

definition save_model :: "'m Doc2VecEmbeddings \<Rightarrow> 'm disk \<Rightarrow> 'm disk" where
  "save_model E d = (case model E of None \<Rightarrow> d | Some m \<Rightarrow> d\<lparr>model_file := Stored m\<rparr>)"

definition load_model :: "'m Doc2VecEmbeddings \<Rightarrow> 'm disk \<Rightarrow> 'm Doc2VecEmbeddings" where
  "load_model E d =
     (case model_file d of
        Missing \<Rightarrow> E
      | Stored m \<Rightarrow> E\<lparr>model := Some m\<rparr>
      | Corrupt \<Rightarrow> E\<lparr>model := None\<rparr>)"

definition Doc2VecEmbeddings_init :: "'m disk \<Rightarrow> 'm Doc2VecEmbeddings" where
  "Doc2VecEmbeddings_init d = load_model \<lparr>model = None\<rparr> d"

definition preprocess_text :: "'m gensim \<Rightarrow> string \<Rightarrow> string list" where
  "preprocess_text G text = simple_preprocess G text"

definition fit ::
  "'m gensim \<Rightarrow> string list \<Rightarrow> 'm Doc2VecEmbeddings \<times> 'm disk
     \<Rightarrow> (error + unit) \<times> 'm Doc2VecEmbeddings \<times> 'm disk" where
  "fit G texts Ed =
     (let (E, d) = Ed;
          processed_texts = map (preprocess_text G) texts;
          tagged_docs = map (\<lambda>(i, doc). (doc, [i])) (enumerate 0 processed_texts)
      in case build_vocab G (Doc2Vec G) tagged_docs of
           (Some e, m1) \<Rightarrow> (Inl e, E\<lparr>model := Some m1\<rparr>, d)
         | (None, m1) \<Rightarrow>
             (case train G m1 tagged_docs of
                (Some e, m2) \<Rightarrow> (Inl e, E\<lparr>model := Some m2\<rparr>, d)
              | (None, m2) \<Rightarrow>
                  (Inr (), E\<lparr>model := Some m2\<rparr>, save_model (E\<lparr>model := Some m2\<rparr>) d)))"

definition embed :: "'m gensim \<Rightarrow> 'm Doc2VecEmbeddings \<Rightarrow> string \<Rightarrow> error + vec" where
  "embed G E text =
     (case model E of
        None \<Rightarrow> Inl ModelNotTrained
      | Some m \<Rightarrow> infer_vector G m (preprocess_text G text))"

text \<open>
  The list comprehension of \<open>embed_batch\<close> infers the vectors one after the other; the
  first inference that raises ends it.
\<close>

fun infer_all :: "'m gensim \<Rightarrow> 'm \<Rightarrow> string list list \<Rightarrow> error + vec list" where
  "infer_all G m [] = Inr []"
| "infer_all G m (doc # docs) =
     (case infer_vector G m doc of
        Inl e \<Rightarrow> Inl e
      | Inr v \<Rightarrow> (case infer_all G m docs of Inl e \<Rightarrow> Inl e | Inr vs \<Rightarrow> Inr (v # vs)))"

definition embed_batch :: "'m gensim \<Rightarrow> 'm Doc2VecEmbeddings \<Rightarrow> string list \<Rightarrow> error + vec list" where
  "embed_batch G E texts =
     (case model E of
        None \<Rightarrow> Inl ModelNotTrained
      | Some m \<Rightarrow>
          (let processed_texts = map (preprocess_text G) texts
           in infer_all G m processed_texts))"

section \<open>The flat L2 index\<close>

text \<open>
  \<open>faiss.IndexFlatL2\<close> is outside the repository as well.  The index is the list of the
  vectors added so far.  \<open>add\<close> unpacks the shape of its argument as \<open>(n, d)\<close>, which
  fails on the one-dimensional empty array that \<open>np.array([])\<close> is.  \<open>search\<close> asserts
  \<open>k > 0\<close> and returns, for one query, \<open>k\<close> labels: the positions of the stored vectors
  by ascending squared Euclidean distance, cut to \<open>k\<close>, and filled up with \<open>-1\<close> where the
  index holds fewer than \<open>k\<close> vectors.  The order among equal distances is left open by the
  library; here it is the order of the positions.  Every vector of the model has the
  dimension of the index, so the dimension assertions are not modelled.
\<close>

definition l2 :: "vec \<Rightarrow> vec \<Rightarrow> rat" where
  "l2 x y = sum_list (map (\<lambda>(a, b). (a - b) * (a - b)) (zip x y))"

definition index_add :: "vec list \<Rightarrow> vec list \<Rightarrow> error + vec list" where
  "index_add ix xs = (if xs = [] then Inl ShapeError else Inr (ix @ xs))"

definition index_search :: "vec list \<Rightarrow> vec \<Rightarrow> nat \<Rightarrow> error + int list" where
  "index_search ix q k =
     (if k = 0 then Inl AssertionError
      else Inr (take k (map int (sort_key (\<lambda>p. l2 q (ix ! p)) [0..<length ix]))
                @ replicate (k - length ix) (- 1)))"

section \<open>Vector store (vector\_store.py)\<close>

definition FAISSVectorStore_init :: "'m disk \<Rightarrow> 'm FAISSVectorStore" where
  "FAISSVectorStore_init d =
     \<lparr>embeddings = Doc2VecEmbeddings_init d, index = [], metadata = [], doc_ids = [],
      filenames = []\<rparr>"

definition save_state :: "'m FAISSVectorStore \<Rightarrow> 'm disk \<Rightarrow> 'm disk" where
  "save_state s d =
     d\<lparr>index_file := Stored (index s),
       state_file := Stored \<lparr>pk_metadata = Some (metadata s), pk_doc_ids = Some (doc_ids s),
                             pk_filenames = Some (filenames s)\<rparr>\<rparr>"

text \<open>
  \<open>_load_state\<close> runs inside one \<open>try\<close> block: an exception leaves every assignment made
  before it in place and makes the function return \<open>False\<close>.
\<close>

definition load_state :: "'m FAISSVectorStore \<Rightarrow> 'm disk \<Rightarrow> bool \<times> 'm FAISSVectorStore" where
  "load_state s d =
     (case index_file d of
        Corrupt \<Rightarrow> (False, s)
      | ixf \<Rightarrow>
          (let s1 = (case ixf of Stored ix \<Rightarrow> s\<lparr>index := ix\<rparr> | _ \<Rightarrow> s)
           in case state_file d of
                Missing \<Rightarrow> (True, s1)
              | Corrupt \<Rightarrow> (False, s1)
              | Stored st \<Rightarrow>
                  (case pk_metadata st of
                     None \<Rightarrow> (False, s1)
                   | Some md \<Rightarrow>
                       (let s2 = s1\<lparr>metadata := md\<rparr>
                        in case pk_doc_ids st of
                             None \<Rightarrow> (False, s2)
                           | Some ids \<Rightarrow>
                               (let s3 = s2\<lparr>doc_ids := ids\<rparr>
                                in case pk_filenames st of
                                     None \<Rightarrow> (False, s3)
                                   | Some fns \<Rightarrow> (True, s3\<lparr>filenames := fns\<rparr>))))))"

text \<open>Process start: the module creates the store and then tries to load the saved state.\<close>

definition startup :: "'m disk \<Rightarrow> 'm FAISSVectorStore" where
  "startup d = snd (load_state (FAISSVectorStore_init d) d)"

definition add_document ::
  "'m gensim \<Rightarrow> string \<Rightarrow> chunk list \<Rightarrow> string \<Rightarrow> 'm FAISSVectorStore \<times> 'm disk
     \<Rightarrow> (error + unit) \<times> 'm FAISSVectorStore \<times> 'm disk" where
  "add_document G doc_id chunks_with_pages filename sd =
     (let (s, d) = sd;
          s1 = s\<lparr>metadata := AList.update doc_id chunks_with_pages (metadata s),
                 filenames := AList.update doc_id filename (filenames s)\<rparr>;
          chunks = map fst chunks_with_pages;
          (r, E, d1) = (if model (embeddings s1) = None then fit G chunks (embeddings s1, d)
                        else (Inr (), embeddings s1, d));
          s2 = s1\<lparr>embeddings := E\<rparr>
      in case r of
           Inl e \<Rightarrow> (Inl e, s2, d1)
         | Inr _ \<Rightarrow>
             (case embed_batch G (embeddings s2) chunks of
                Inl e \<Rightarrow> (Inl e, s2, d1)
              | Inr embs \<Rightarrow>
                  (case index_add (index s2) embs of
                     Inl e \<Rightarrow> (Inl e, s2, d1)
                   | Inr ix \<Rightarrow>
                       (let s3 = s2\<lparr>index := ix,
                                     doc_ids := doc_ids s2 @ replicate (length chunks) doc_id\<rparr>
                        in (Inr (), s3, save_state s3 d1)))))"

definition exists :: "'m FAISSVectorStore \<Rightarrow> string \<Rightarrow> bool" where
  "exists s doc_id = (map_of (metadata s) doc_id \<noteq> None)"

definition get_filename :: "'m FAISSVectorStore \<Rightarrow> string \<Rightarrow> string option" where
  "get_filename s doc_id = map_of (filenames s) doc_id"

fun start_idx_loop :: "string list \<Rightarrow> string \<Rightarrow> int \<Rightarrow> int" where
  "start_idx_loop [] doc_id count = 0"
| "start_idx_loop (d_id # rest) doc_id count =
     (if d_id = doc_id then count else start_idx_loop rest doc_id (count + 1))"

definition get_doc_start_idx :: "'m FAISSVectorStore \<Rightarrow> string \<Rightarrow> int" where
  "get_doc_start_idx s doc_id = start_idx_loop (doc_ids s) doc_id 0"

text \<open>
  Subscripting a list with an integer, as \<open>metadata[doc_id][...]\<close> does: an offset below
  zero is taken from the end of the list, and one that falls outside raises \<open>IndexError\<close>.
\<close>

definition py_index :: "'a list \<Rightarrow> int \<Rightarrow> error + 'a" where
  "py_index xs i =
     (if 0 \<le> i \<and> i < int (length xs) then Inr (xs ! nat i)
      else if i < 0 \<and> - int (length xs) \<le> i then Inr (xs ! nat (int (length xs) + i))
      else Inl IndexError)"

text \<open>The chunk that \<open>search\<close> reads for index position \<open>idx\<close> of document \<open>doc_id\<close>.\<close>

definition chunk_at :: "'m FAISSVectorStore \<Rightarrow> string \<Rightarrow> int \<Rightarrow> error + chunk" where
  "chunk_at s doc_id idx =
     (case map_of (metadata s) doc_id of
        None \<Rightarrow> Inl KeyError
      | Some cs \<Rightarrow> py_index cs (idx - get_doc_start_idx s doc_id))"

fun search_loop ::
  "'m FAISSVectorStore \<Rightarrow> string \<Rightarrow> int \<Rightarrow> int list \<Rightarrow> chunk list \<Rightarrow> string set
     \<Rightarrow> error + chunk list" where
  "search_loop s doc_id k [] results seen_chunks = Inr results"
| "search_loop s doc_id k (idx # rest) results seen_chunks =
     (if 0 \<le> idx \<and> idx < int (length (doc_ids s)) then
        (if doc_ids s ! nat idx = doc_id then
           (case chunk_at s doc_id idx of
              Inl e \<Rightarrow> Inl e
            | Inr (chunk, page) \<Rightarrow>
                (if chunk \<notin> seen_chunks then
                   (if k \<le> int (length (results @ [(chunk, page)])) then
                      Inr (results @ [(chunk, page)])
                    else search_loop s doc_id k rest (results @ [(chunk, page)])
                           (insert chunk seen_chunks))
                 else search_loop s doc_id k rest results seen_chunks))
         else search_loop s doc_id k rest results seen_chunks)
      else search_loop s doc_id k rest results seen_chunks)"

definition search ::
  "'m gensim \<Rightarrow> 'm FAISSVectorStore \<Rightarrow> string \<Rightarrow> string \<Rightarrow> int \<Rightarrow> error + chunk list" where
  "search G s query doc_id k =
     (if \<not> exists s doc_id then Inr []
      else
        (case embed G (embeddings s) query of
           Inl e \<Rightarrow> Inl e
         | Inr query_embedding \<Rightarrow>
             (case index_search (index s) query_embedding (length (doc_ids s)) of
                Inl e \<Rightarrow> Inl e
              | Inr I \<Rightarrow> search_loop s doc_id k I [] {})))"

section \<open>Ingestion histories and derived notions\<close>

text \<open>
  A document as the upload path hands it to \<open>add_document\<close>: identifier, chunks and
  filename.  \<open>ingest_all\<close> is the sequence of \<open>add_document\<close> calls a run of the service
  makes, one per upload; a call that raises leaves its result in the list and the next call
  goes on from the state the failed one left.
\<close>

type_synonym document = "string \<times> chunk list \<times> string"

fun ingest_all ::
  "'m gensim \<Rightarrow> document list \<Rightarrow> 'm FAISSVectorStore \<times> 'm disk
     \<Rightarrow> (error + unit) list \<times> 'm FAISSVectorStore \<times> 'm disk" where
  "ingest_all G [] sd = ([], sd)"
| "ingest_all G ((doc_id, chunks_with_pages, filename) # docs) sd =
     (let (r, sd1) = add_document G doc_id chunks_with_pages filename sd;
          (rs, sd2) = ingest_all G docs sd1
      in (r # rs, sd2))"

text \<open>The number of chunks the registry holds, and the length equality of the data model.\<close>

definition chunk_total :: "'m FAISSVectorStore \<Rightarrow> nat" where
  "chunk_total s = sum_list (map (\<lambda>(doc_id, cs). length cs) (metadata s))"

definition lengths_agree :: "'m FAISSVectorStore \<Rightarrow> bool" where
  "lengths_agree s \<longleftrightarrow>
     length (index s) = length (doc_ids s) \<and> length (doc_ids s) = chunk_total s"

text \<open>
  The tag sequence that a registry stands for: one block of tags per document, in the order
  of the registry.  A store is consistent when its tag sequence is that one, the index has
  one vector per tag and no identifier is registered twice.
\<close>

definition tags_of :: "(string \<times> chunk list) list \<Rightarrow> string list" where
  "tags_of md = concat (map (\<lambda>(doc_id, cs). replicate (length cs) doc_id) md)"

definition consistent :: "'m FAISSVectorStore \<Rightarrow> bool" where
  "consistent s \<longleftrightarrow>
     length (index s) = length (doc_ids s) \<and> doc_ids s = tags_of (metadata s) \<and>
     distinct (map fst (metadata s))"

text \<open>The registry and the first index position of the \<open>i\<close>-th document of a history.\<close>

definition registry_of :: "document list \<Rightarrow> (string \<times> chunk list) list" where
  "registry_of docs = map (\<lambda>(doc_id, cwp, fn). (doc_id, cwp)) docs"

definition doc_start :: "document list \<Rightarrow> nat \<Rightarrow> nat" where
  "doc_start docs i = sum_list (map (\<lambda>(doc_id, cwp, fn). length cwp) (take i docs))"

text \<open>
  An index position that \<open>search\<close> accepts for \<open>doc_id\<close>: in range of the tag sequence and
  tagged with \<open>doc_id\<close>.  The chunk texts that the registry holds for \<open>doc_id\<close>.
\<close>

definition valid_pos :: "'m FAISSVectorStore \<Rightarrow> string \<Rightarrow> int \<Rightarrow> bool" where
  "valid_pos s doc_id idx \<longleftrightarrow>
     0 \<le> idx \<and> idx < int (length (doc_ids s)) \<and> doc_ids s ! nat idx = doc_id"

definition chunk_texts :: "'m FAISSVectorStore \<Rightarrow> string \<Rightarrow> string set" where
  "chunk_texts s doc_id =
     (case map_of (metadata s) doc_id of None \<Rightarrow> {} | Some cs \<Rightarrow> fst ` set cs)"

subsection \<open>A deterministic stand-in for the embedding model, and sample data\<close>

text \<open>
  The stand-in model is the number of texts it was trained on, \<open>0\<close> for the object that
  was never trained; training raises on a corpus of fewer than two texts, as gensim does on
  a corpus that yields no vocabulary, and inference raises on the object \<open>0\<close>.  The
  embedding of a text is its length.
\<close>

definition stub :: "nat gensim" where
  "stub = \<lparr>simple_preprocess = (\<lambda>t. [t]), Doc2Vec = 0,
           build_vocab = (\<lambda>m docs. (None, m)),
           train = (\<lambda>m docs. if length docs < 2 then (Some GensimError, m)
                               else (None, length docs)),
           infer_vector = (\<lambda>m toks. if m = 0 then Inl KeyError
                                     else Inr [of_nat (length (concat toks))])\<rparr>"

definition empty_disk :: "nat disk" where
  "empty_disk = \<lparr>model_file = Missing, index_file = Missing, state_file = Missing\<rparr>"

definition chunks_A :: "chunk list" where
  "chunks_A = [(''intro text about X'', 1), (''method uses Y'', 2), (''results show Z'', 3)]"

definition after_A :: "(error + unit) \<times> nat FAISSVectorStore \<times> nat disk" where
  "after_A = add_document stub ''A'' chunks_A ''a.pdf'' (startup empty_disk, empty_disk)"

definition store_A :: "nat FAISSVectorStore" where
  "store_A = \<lparr>embeddings = \<lparr>model = Some 3\<rparr>, index = [[18], [13], [14]],
              metadata = [(''A'', chunks_A)], doc_ids = [''A'', ''A'', ''A''],
              filenames = [(''A'', ''a.pdf'')]\<rparr>"

definition disk_A :: "nat disk" where
  "disk_A = \<lparr>model_file = Stored 3, index_file = Stored [[18], [13], [14]],
             state_file = Stored \<lparr>pk_metadata = Some [(''A'', chunks_A)],
                                   pk_doc_ids = Some [''A'', ''A'', ''A''],
                                   pk_filenames = Some [(''A'', ''a.pdf'')]\<rparr>\<rparr>"

text \<open>A disk whose index file is intact and whose registry file is unreadable.\<close>

definition torn_disk :: "nat disk" where
  "torn_disk = \<lparr>model_file = Stored 3, index_file = Stored [[18], [13], [14]],
                state_file = Corrupt\<rparr>"

definition chunks_B :: "chunk list" where
  "chunks_B = [(''data about X set'', 1), (''short'', 4)]"

definition docs_AB :: "document list" where
  "docs_AB = [(''A'', chunks_A, ''a.pdf''), (''B'', chunks_B, ''b.pdf'')]"

text \<open>
  Two stores that are not consistent: the one that ingests a document after the start on
  the torn disk, and the one that ingests a second document under an identifier already
  in use.
\<close>

definition torn_B :: "nat FAISSVectorStore" where
  "torn_B = fst (snd (add_document stub ''B'' chunks_B ''b.pdf'' (startup torn_disk, torn_disk)))"

definition dup_A :: "nat FAISSVectorStore" where
  "dup_A = fst (snd (add_document stub ''A'' chunks_B ''a2.pdf'' (store_A, disk_A)))"

section \<open>Properties of the registry and of ingestion\<close>

lemma add_document_registry:
  "add_document G doc_id cwp fn (s, d) = (r, s', d') \<Longrightarrow>
   metadata s' = AList.update doc_id cwp (metadata s) \<and>
   filenames s' = AList.update doc_id fn (filenames s)"
  by (auto simp: add_document_def Let_def split: prod.splits sum.splits if_splits)

lemma add_document_failure_frame:
  "add_document G doc_id cwp fn (s, d) = (Inl e, s', d') \<Longrightarrow>
   index s' = index s \<and> doc_ids s' = doc_ids s \<and>
   index_file d' = index_file d \<and> state_file d' = state_file d"
  by (auto simp: add_document_def Let_def fit_def save_model_def
           split: prod.splits sum.splits if_splits option.splits)

lemma update_new_key: "map_of al k = None \<Longrightarrow> AList.update k v al = al @ [(k, v)]"
  by (induction al) (auto split: if_splits)

lemma add_document_trained:
  assumes "model (embeddings s) = Some m" "add_document G doc_id cwp fn (s, d) = (r, s', d')"
  shows "embeddings s' = embeddings s \<and> model_file d' = model_file d"
  using assms
  by (auto simp: add_document_def Let_def save_state_def split: prod.splits sum.splits if_splits)

lemma ingest_all_unknown:
  "ingest_all G docs (s0, d0) = (rs, s, d) \<Longrightarrow> doc_id \<notin> fst ` set docs \<Longrightarrow>
   map_of (metadata s) doc_id = map_of (metadata s0) doc_id \<and>
   map_of (filenames s) doc_id = map_of (filenames s0) doc_id"
proof (induction docs arbitrary: s0 d0 rs)
  case Nil
  then show ?case by simp
next
  case (Cons doc docs)
  obtain i cwp fn where doc: "doc = (i, cwp, fn)" by (cases doc)
  obtain r s1 d1 where a: "add_document G i cwp fn (s0, d0) = (r, s1, d1)"
    by (cases "add_document G i cwp fn (s0, d0)")
  obtain rs' where rest: "ingest_all G docs (s1, d1) = (rs', s, d)"
    using Cons.prems(1) doc a by (auto split: prod.splits)
  have ne: "i \<noteq> doc_id" using Cons.prems(2) doc by auto
  from add_document_registry[OF a] ne
  have "map_of (metadata s1) doc_id = map_of (metadata s0) doc_id"
       "map_of (filenames s1) doc_id = map_of (filenames s0) doc_id"
    by (simp_all add: update_conv')
  moreover have "doc_id \<notin> fst ` set docs" using Cons.prems(2) by auto
  ultimately show ?case using Cons.IH[OF rest] by simp
qed

lemma roundtrip:
  assumes "embeddings (FAISSVectorStore_init (save_state s d)) = embeddings s"
  shows "load_state (FAISSVectorStore_init (save_state s d)) (save_state s d) = (True, s)"
proof -
  have "load_state (FAISSVectorStore_init (save_state s d)) (save_state s d)
        = (True, \<lparr>embeddings = embeddings (FAISSVectorStore_init (save_state s d)), index = index s,
                  metadata = metadata s, doc_ids = doc_ids s, filenames = filenames s\<rparr>)"
    by (simp add: load_state_def save_state_def FAISSVectorStore_init_def)
  with assms show ?thesis by simp
qed

section \<open>Layout of the tag sequence\<close>

lemma tags_of_append: "tags_of (a @ b) = tags_of a @ tags_of b"
  by (simp add: tags_of_def)

lemma tags_of_Cons: "tags_of ((doc_id, cs) # md) = replicate (length cs) doc_id @ tags_of md"
  by (simp add: tags_of_def)

lemma set_tags_of: "set (tags_of md) \<subseteq> fst ` set md"
  by (induction md) (auto simp: tags_of_def)

lemma length_tags_of: "length (tags_of md) = sum_list (map (\<lambda>(doc_id, cs). length cs) md)"
  by (induction md) (auto simp: tags_of_def)

lemma tags_of_split:
  assumes "i < length md" "md ! i = (doc_id, cs)"
  shows "tags_of md = tags_of (take i md) @ replicate (length cs) doc_id @ tags_of (drop (Suc i) md)"
proof -
  have "md = take i md @ md ! i # drop (Suc i) md"
    using assms(1) by (rule id_take_nth_drop)
  then have "tags_of md = tags_of (take i md @ (doc_id, cs) # drop (Suc i) md)"
    unfolding assms(2) by (rule arg_cong)
  then show ?thesis by (simp only: tags_of_append tags_of_Cons)
qed

lemma distinct_keys_split:
  assumes "distinct (map fst md)" "i < length md" "md ! i = (doc_id, cs)"
  shows "doc_id \<notin> fst ` set (take i md)" "doc_id \<notin> fst ` set (drop (Suc i) md)"
proof -
  have "md = take i md @ md ! i # drop (Suc i) md"
    using assms(2) by (rule id_take_nth_drop)
  then have md: "md = take i md @ (doc_id, cs) # drop (Suc i) md"
    unfolding assms(3) .
  have "distinct (map fst (take i md @ (doc_id, cs) # drop (Suc i) md))"
    using assms(1) by (subst md[symmetric])
  then show "doc_id \<notin> fst ` set (take i md)" "doc_id \<notin> fst ` set (drop (Suc i) md)"
    by auto
qed

lemma nth_middle_block:
  assumes "x \<notin> set A" "x \<notin> set B" "p < length (A @ replicate n x @ B)"
  shows "(A @ replicate n x @ B) ! p = x \<longleftrightarrow> length A \<le> p \<and> p < length A + n"
proof (cases "p < length A")
  case True
  then have "(A @ replicate n x @ B) ! p = A ! p" by (simp add: nth_append)
  moreover have "A ! p \<in> set A" using True by (rule nth_mem)
  ultimately have "(A @ replicate n x @ B) ! p \<noteq> x" using assms(1) by auto
  with True show ?thesis by simp
next
  case False
  show ?thesis
  proof (cases "p < length A + n")
    case True
    have "p - length A < n" using True False by arith
    with False have "(A @ replicate n x @ B) ! p = x" by (simp add: nth_append)
    with True False show ?thesis by simp
  next
    case nb: False
    have lp: "p - length A - n < length B" using assms(3) False nb by simp
    have "\<not> p - length A < n" using False nb by arith
    then have "(A @ replicate n x @ B) ! p = B ! (p - length A - n)"
      using False by (simp add: nth_append)
    moreover have "B ! (p - length A - n) \<in> set B" using lp by (rule nth_mem)
    ultimately have "(A @ replicate n x @ B) ! p \<noteq> x" using assms(2) by auto
    with nb show ?thesis by simp
  qed
qed

lemma tags_range:
  assumes "distinct (map fst md)" "i < length md" "md ! i = (doc_id, cs)"
    and "p < length (tags_of md)"
  shows "tags_of md ! p = doc_id \<longleftrightarrow>
         length (tags_of (take i md)) \<le> p \<and> p < length (tags_of (take i md)) + length cs"
proof -
  have sp: "tags_of md = tags_of (take i md) @ replicate (length cs) doc_id @ tags_of (drop (Suc i) md)"
    using assms(2,3) by (rule tags_of_split)
  have nA: "doc_id \<notin> set (tags_of (take i md))"
    using distinct_keys_split(1)[OF assms(1-3)] set_tags_of[of "take i md"] by (rule contra_subsetD[rotated])
  have nB: "doc_id \<notin> set (tags_of (drop (Suc i) md))"
    using distinct_keys_split(2)[OF assms(1-3)] set_tags_of[of "drop (Suc i) md"] by (rule contra_subsetD[rotated])
  have "p < length (tags_of (take i md) @ replicate (length cs) doc_id @ tags_of (drop (Suc i) md))"
    using assms(4) by (subst sp[symmetric])
  from nth_middle_block[OF nA nB this] show ?thesis by (subst sp)
qed

lemma start_idx_loop_eq:
  "start_idx_loop xs doc_id c =
     (if doc_id \<in> set xs then c + int (length (takeWhile (\<lambda>d. d \<noteq> doc_id) xs)) else 0)"
  by (induction xs arbitrary: c) auto

lemma start_of_document:
  assumes "consistent s" "i < length (metadata s)" "metadata s ! i = (doc_id, cs)" "cs \<noteq> []"
  shows "get_doc_start_idx s doc_id = int (length (tags_of (take i (metadata s))))"
proof -
  let ?md = "metadata s"
  let ?A = "tags_of (take i ?md)" and ?B = "tags_of (drop (Suc i) ?md)"
  have sp: "doc_ids s = ?A @ replicate (length cs) doc_id @ ?B"
    using tags_of_split[OF assms(2,3)] assms(1) by (simp add: consistent_def)
  have "distinct (map fst ?md)" using assms(1) by (simp add: consistent_def)
  then have "doc_id \<notin> fst ` set (take i ?md)"
    using assms(2,3) by (rule distinct_keys_split(1))
  then have nA: "doc_id \<notin> set ?A"
    using set_tags_of[of "take i ?md"] by (rule contra_subsetD[rotated])
  obtain n where n: "length cs = Suc n" using assms(4) by (cases cs) auto
  have "\<And>x. x \<in> set ?A \<Longrightarrow> x \<noteq> doc_id" using nA by blast
  then have "takeWhile (\<lambda>d. d \<noteq> doc_id) (?A @ replicate (Suc n) doc_id @ ?B)
             = ?A @ takeWhile (\<lambda>d. d \<noteq> doc_id) (replicate (Suc n) doc_id @ ?B)"
    by (rule takeWhile_append2)
  then have "takeWhile (\<lambda>d. d \<noteq> doc_id) (doc_ids s) = ?A"
    unfolding sp n by simp
  moreover have "doc_id \<in> set (doc_ids s)" unfolding sp n by simp
  ultimately show ?thesis by (simp add: get_doc_start_idx_def start_idx_loop_eq)
qed

lemma map_of_nth:
  assumes "distinct (map fst md)" "map_of md k = Some v"
  shows "\<exists>i < length md. md ! i = (k, v)"
  using map_of_SomeD[OF assms(2)] by (simp add: in_set_conv_nth)

lemma chunk_at_valid:
  assumes "consistent s" "i < length (metadata s)" "metadata s ! i = (doc_id, cs)"
    and "valid_pos s doc_id p"
  shows "length (tags_of (take i (metadata s))) \<le> nat p \<and>
         nat p < length (tags_of (take i (metadata s))) + length cs \<and>
         chunk_at s doc_id p = Inr (cs ! (nat p - length (tags_of (take i (metadata s)))))"
proof -
  let ?st = "length (tags_of (take i (metadata s)))"
  have d: "distinct (map fst (metadata s))" and t: "doc_ids s = tags_of (metadata s)"
    using assms(1) by (simp_all add: consistent_def)
  have p: "0 \<le> p" "nat p < length (tags_of (metadata s))" "tags_of (metadata s) ! nat p = doc_id"
    using assms(4) t by (auto simp: valid_pos_def)
  have r: "?st \<le> nat p \<and> nat p < ?st + length cs"
    using tags_range[OF d assms(2,3) p(2)] p(3) by simp
  then have ne: "cs \<noteq> []" by auto
  have st: "get_doc_start_idx s doc_id = int ?st"
    using start_of_document[OF assms(1-3) ne] .
  have "metadata s ! i \<in> set (metadata s)" using assms(2) by (rule nth_mem)
  then have "(doc_id, cs) \<in> set (metadata s)" unfolding assms(3) .
  with d have m: "map_of (metadata s) doc_id = Some cs" by (rule map_of_is_SomeI)
  have off: "0 \<le> p - int ?st" "p - int ?st < int (length cs)" "nat (p - int ?st) = nat p - ?st"
    using r p(1) by auto
  have "chunk_at s doc_id p = Inr (cs ! (nat p - ?st))"
    using off by (simp add: chunk_at_def m st py_index_def Let_def)
  with r show ?thesis by simp
qed

lemma chunk_position:
  assumes "consistent s" "i < length (metadata s)" "metadata s ! i = (doc_id, cs)"
    and "j < length cs" and "p = int (length (tags_of (take i (metadata s))) + j)"
  shows "valid_pos s doc_id p \<and> chunk_at s doc_id p = Inr (cs ! j)"
proof -
  let ?st = "length (tags_of (take i (metadata s)))"
  have np: "nat p = ?st + j" "0 \<le> p" using assms(5) by simp_all
  have d: "distinct (map fst (metadata s))" and t: "doc_ids s = tags_of (metadata s)"
    using assms(1) by (simp_all add: consistent_def)
  have len: "?st + j < length (tags_of (metadata s))"
    using tags_of_split[OF assms(2,3)] assms(4) by simp
  have "tags_of (metadata s) ! (?st + j) = doc_id"
    using tags_range[OF d assms(2,3) len] assms(4) by simp
  moreover have "p < int (length (tags_of (metadata s)))" using len np by linarith
  ultimately have v: "valid_pos s doc_id p"
    unfolding valid_pos_def t np using np(2) by blast
  from chunk_at_valid[OF assms(1-3) v] have "chunk_at s doc_id p = Inr (cs ! (nat p - ?st))"
    by blast
  then have "chunk_at s doc_id p = Inr (cs ! j)" unfolding np by simp
  with v show ?thesis by blast
qed

lemma infer_all_result:
  "infer_all G m docs = Inr vs \<Longrightarrow>
   length vs = length docs \<and> (\<forall>i < length docs. infer_vector G m (docs ! i) = Inr (vs ! i))"
proof (induction docs arbitrary: vs)
  case Nil
  then show ?case by simp
next
  case (Cons doc docs)
  from Cons.prems obtain v vs' where v: "infer_vector G m doc = Inr v"
    and r: "infer_all G m docs = Inr vs'" and vs: "vs = v # vs'"
    by (auto split: sum.splits)
  from Cons.IH[OF r] v show ?case by (auto simp: vs nth_Cons split: nat.splits)
qed

lemma embed_batch_result:
  assumes "embed_batch G E texts = Inr vs"
  shows "model E \<noteq> None \<and> length vs = length texts"
proof -
  from assms obtain m where m: "model E = Some m"
    and r: "infer_all G m (map (preprocess_text G) texts) = Inr vs"
    by (auto simp: embed_batch_def split: option.splits)
  from infer_all_result[OF r] m show ?thesis by simp
qed

lemma add_document_success:
  assumes "add_document G doc_id cwp fn (s, d) = (Inr (), s', d')"
  shows "cwp \<noteq> [] \<and> length (index s') = length (index s) + length cwp \<and>
         doc_ids s' = doc_ids s @ replicate (length cwp) doc_id \<and>
         model (embeddings s') \<noteq> None"
proof -
  let ?s1 = "s\<lparr>metadata := AList.update doc_id cwp (metadata s),
               filenames := AList.update doc_id fn (filenames s)\<rparr>"
  obtain r E d1 where f: "(if model (embeddings ?s1) = None
                           then fit G (map fst cwp) (embeddings ?s1, d)
                           else (Inr (), embeddings ?s1, d)) = (r, E, d1)"
    by (metis prod.collapse)
  from assms f obtain embs ix where e: "embed_batch G E (map fst cwp) = Inr embs"
    and ix: "index_add (index s) embs = Inr ix"
    and s': "s' = ?s1\<lparr>embeddings := E, index := ix,
                        doc_ids := doc_ids s @ replicate (length cwp) doc_id\<rparr>"
    by (auto simp: add_document_def Let_def split: sum.splits)
  from embed_batch_result[OF e] have m: "model E \<noteq> None" and l: "length embs = length cwp"
    by simp_all
  from ix have "embs \<noteq> []" "ix = index s @ embs"
    by (auto simp: index_add_def split: if_splits)
  with l m s' show ?thesis by auto
qed

lemma add_document_consistent:
  assumes "add_document G doc_id cwp fn (s, d) = (Inr (), s', d')"
    and "consistent s" "map_of (metadata s) doc_id = None"
  shows "consistent s' \<and> metadata s' = metadata s @ [(doc_id, cwp)]"
proof -
  have md: "metadata s' = metadata s @ [(doc_id, cwp)]"
    using add_document_registry[OF assms(1)] update_new_key[OF assms(3)] by simp
  have nk: "doc_id \<notin> fst ` set (metadata s)"
    using assms(3) by (simp add: map_of_eq_None_iff)
  have "doc_ids s' = tags_of (metadata s')"
    using add_document_success[OF assms(1)] assms(2)
    by (simp add: md tags_of_append tags_of_Cons consistent_def tags_of_def)
  moreover have "length (index s') = length (doc_ids s')"
    using add_document_success[OF assms(1)] assms(2) by (simp add: consistent_def)
  moreover have "distinct (map fst (metadata s'))"
    using assms(2) nk by (simp add: md consistent_def)
  ultimately show ?thesis using md by (simp add: consistent_def)
qed

lemma ingest_all_consistent:
  "ingest_all G docs (s0, d0) = (rs, s, d) \<Longrightarrow> \<forall>r \<in> set rs. r = Inr () \<Longrightarrow>
   distinct (map fst docs) \<Longrightarrow> consistent s0 \<Longrightarrow>
   fst ` set docs \<inter> fst ` set (metadata s0) = {} \<Longrightarrow>
   consistent s \<and> metadata s = metadata s0 @ registry_of docs"
proof (induction docs arbitrary: s0 d0 rs)
  case Nil
  then show ?case by (simp add: registry_of_def)
next
  case (Cons doc docs)
  obtain i cwp fn where doc: "doc = (i, cwp, fn)" by (cases doc)
  obtain r s1 d1 where a: "add_document G i cwp fn (s0, d0) = (r, s1, d1)"
    by (cases "add_document G i cwp fn (s0, d0)")
  obtain rs' where rest: "ingest_all G docs (s1, d1) = (rs', s, d)" and rs: "rs = r # rs'"
    using Cons.prems(1) doc a by (auto split: prod.splits)
  have ok: "r = Inr ()" and oks: "\<forall>r \<in> set rs'. r = Inr ()"
    using Cons.prems(2) rs by simp_all
  have new: "map_of (metadata s0) i = None"
    using Cons.prems(5) doc by (auto simp: map_of_eq_None_iff)
  from add_document_consistent[OF a[unfolded ok] Cons.prems(4) new]
  have c1: "consistent s1" and m1: "metadata s1 = metadata s0 @ [(i, cwp)]" by simp_all
  have dis: "distinct (map fst docs)" and ni: "i \<notin> fst ` set docs"
    using Cons.prems(3) doc by auto
  have disj: "fst ` set docs \<inter> fst ` set (metadata s1) = {}"
    using Cons.prems(5) ni by (auto simp: m1)
  from Cons.IH[OF rest oks dis c1 disj]
  show ?case by (simp add: m1 doc registry_of_def)
qed

lemma tags_of_registry:
  "tags_of (registry_of docs) = concat (map (\<lambda>(doc_id, cwp, fn). replicate (length cwp) doc_id) docs)"
  by (induction docs) (auto simp: tags_of_def registry_of_def)

lemma length_tags_of_take:
  "length (tags_of (take i (registry_of docs))) = doc_start docs i"
  by (simp add: length_tags_of registry_of_def doc_start_def take_map comp_def case_prod_unfold)

lemma init_consistent: "consistent (FAISSVectorStore_init d)"
  by (simp add: consistent_def FAISSVectorStore_init_def tags_of_def)

section \<open>The retrieval loop\<close>

lemma subseq_sorted_wrt: "subseq xs ys \<Longrightarrow> sorted_wrt R ys \<Longrightarrow> sorted_wrt R xs"
proof (induction rule: list_emb.induct)
  case (list_emb_Cons2 x y xs ys)
  then have "set xs \<subseteq> set ys" by (auto dest: list_emb_set[where P = "(=)"])
  with list_emb_Cons2 show ?case by auto
qed auto

lemma subseq_distinct: "subseq xs ys \<Longrightarrow> distinct ys \<Longrightarrow> distinct xs"
proof (induction rule: list_emb.induct)
  case (list_emb_Cons2 x y xs ys)
  then have "set xs \<subseteq> set ys" by (auto dest: list_emb_set[where P = "(=)"])
  with list_emb_Cons2 show ?case by auto
qed auto

lemma subseq_set: "subseq xs ys \<Longrightarrow> set xs \<subseteq> set ys"
  by (auto dest: list_emb_set[where P = "(=)"])

lemma search_loop_sound:
  "search_loop s doc_id k rank res seen = Inr rs \<Longrightarrow>
   \<exists>ps. subseq ps rank \<and> rs = res @ map (\<lambda>p. projr (chunk_at s doc_id p)) ps \<and>
        (\<forall>p \<in> set ps. valid_pos s doc_id p \<and> (\<exists>c. chunk_at s doc_id p = Inr c) \<and>
                       fst (projr (chunk_at s doc_id p)) \<notin> seen) \<and>
        distinct (map (\<lambda>p. fst (projr (chunk_at s doc_id p))) ps)"
proof (induction rank arbitrary: res seen)
  case Nil
  then show ?case by (intro exI[of _ "[]"]) simp
next
  case (Cons idx rest)
  show ?case
  proof (cases "valid_pos s doc_id idx")
    case False
    then have "search_loop s doc_id k rest res seen = Inr rs"
      using Cons.prems by (auto simp: valid_pos_def split: if_splits)
    from Cons.IH[OF this] obtain ps where ps: "subseq ps rest"
      "rs = res @ map (\<lambda>p. projr (chunk_at s doc_id p)) ps"
      "\<forall>p \<in> set ps. valid_pos s doc_id p \<and> (\<exists>c. chunk_at s doc_id p = Inr c) \<and>
                       fst (projr (chunk_at s doc_id p)) \<notin> seen"
      "distinct (map (\<lambda>p. fst (projr (chunk_at s doc_id p))) ps)" by blast
    then show ?thesis by (intro exI[of _ ps]) auto
  next
    case True
    then obtain chunk page where c: "chunk_at s doc_id idx = Inr (chunk, page)"
      using Cons.prems by (auto simp: valid_pos_def split: sum.splits)
    show ?thesis
    proof (cases "chunk \<in> seen")
      case True
      then have "search_loop s doc_id k rest res seen = Inr rs"
        using Cons.prems c \<open>valid_pos s doc_id idx\<close> by (auto simp: valid_pos_def)
      from Cons.IH[OF this] obtain ps where ps: "subseq ps rest"
        "rs = res @ map (\<lambda>p. projr (chunk_at s doc_id p)) ps"
        "\<forall>p \<in> set ps. valid_pos s doc_id p \<and> (\<exists>c. chunk_at s doc_id p = Inr c) \<and>
                       fst (projr (chunk_at s doc_id p)) \<notin> seen"
        "distinct (map (\<lambda>p. fst (projr (chunk_at s doc_id p))) ps)" by blast
      then show ?thesis by (intro exI[of _ ps]) auto
    next
      case False
      show ?thesis
      proof (cases "k \<le> int (length res) + 1")
        case True
        then have "rs = res @ [(chunk, page)]"
          using Cons.prems c False \<open>valid_pos s doc_id idx\<close> by (auto simp: valid_pos_def)
        then show ?thesis using c False \<open>valid_pos s doc_id idx\<close>
          by (intro exI[of _ "[idx]"]) auto
      next
        case nk: False
        then have "search_loop s doc_id k rest (res @ [(chunk, page)]) (insert chunk seen) = Inr rs"
          using Cons.prems c False \<open>valid_pos s doc_id idx\<close> by (auto simp: valid_pos_def)
        from Cons.IH[OF this] obtain ps where ps: "subseq ps rest"
          "rs = (res @ [(chunk, page)]) @ map (\<lambda>p. projr (chunk_at s doc_id p)) ps"
          "\<forall>p \<in> set ps. valid_pos s doc_id p \<and> (\<exists>c. chunk_at s doc_id p = Inr c) \<and>
                       fst (projr (chunk_at s doc_id p)) \<notin> insert chunk seen"
          "distinct (map (\<lambda>p. fst (projr (chunk_at s doc_id p))) ps)" by blast
        then show ?thesis using c False \<open>valid_pos s doc_id idx\<close>
          by (intro exI[of _ "idx # ps"]) (auto simp: image_iff)
      qed
    qed
  qed
qed

lemma search_loop_length:
  "search_loop s doc_id k rank res seen = Inr rs \<Longrightarrow> int (length res) < k \<Longrightarrow>
   int (length rs) \<le> k"
proof (induction rank arbitrary: res seen)
  case Nil
  then show ?case by simp
next
  case (Cons idx rest)
  then show ?case
    by (auto split: if_splits sum.splits prod.splits)
qed

lemma search_loop_extends:
  "search_loop s doc_id k rank res seen = Inr rs \<Longrightarrow> set res \<subseteq> set rs"
  by (drule search_loop_sound) auto

lemma search_loop_complete:
  "search_loop s doc_id k rank res seen = Inr rs \<Longrightarrow> int (length rs) < k \<Longrightarrow>
   p \<in> set rank \<Longrightarrow> valid_pos s doc_id p \<Longrightarrow>
   fst (projr (chunk_at s doc_id p)) \<in> seen \<union> fst ` set rs"
proof (induction rank arbitrary: res seen)
  case Nil
  then show ?case by simp
next
  case (Cons idx rest)
  show ?case
  proof (cases "valid_pos s doc_id idx")
    case False
    then have "search_loop s doc_id k rest res seen = Inr rs" "p \<in> set rest"
      using Cons.prems by (auto simp: valid_pos_def split: if_splits)
    then show ?thesis using Cons.IH Cons.prems by blast
  next
    case True
    then obtain chunk page where c: "chunk_at s doc_id idx = Inr (chunk, page)"
      using Cons.prems by (auto simp: valid_pos_def split: sum.splits)
    show ?thesis
    proof (cases "chunk \<in> seen")
      case True
      then have l: "search_loop s doc_id k rest res seen = Inr rs"
        using Cons.prems c \<open>valid_pos s doc_id idx\<close> by (auto simp: valid_pos_def)
      show ?thesis
      proof (cases "p = idx")
        case True
        then show ?thesis using c \<open>chunk \<in> seen\<close> by simp
      next
        case False
        then have "p \<in> set rest" using Cons.prems by simp
        then show ?thesis using Cons.IH[OF l] Cons.prems by blast
      qed
    next
      case False
      have nk: "\<not> k \<le> int (length res) + 1"
      proof
        assume "k \<le> int (length res) + 1"
        then have "rs = res @ [(chunk, page)]"
          using Cons.prems c False \<open>valid_pos s doc_id idx\<close> by (auto simp: valid_pos_def)
        then show False using Cons.prems(2) \<open>k \<le> int (length res) + 1\<close> by simp
      qed
      then have l: "search_loop s doc_id k rest (res @ [(chunk, page)]) (insert chunk seen) = Inr rs"
        using Cons.prems c False \<open>valid_pos s doc_id idx\<close> by (auto simp: valid_pos_def)
      have in_rs: "chunk \<in> fst ` set rs"
        using search_loop_extends[OF l] by force
      show ?thesis
      proof (cases "p = idx")
        case True
        then show ?thesis using c in_rs by simp
      next
        case False
        then have "p \<in> set rest" using Cons.prems by simp
        from Cons.IH[OF l Cons.prems(2) this Cons.prems(4)] in_rs show ?thesis by auto
      qed
    qed
  qed
qed

lemma search_loop_total:
  "(\<forall>p \<in> set rank. valid_pos s doc_id p \<longrightarrow> (\<exists>c. chunk_at s doc_id p = Inr c)) \<Longrightarrow>
   \<exists>rs. search_loop s doc_id k rank res seen = Inr rs"
proof (induction rank arbitrary: res seen)
  case Nil
  then show ?case by simp
next
  case (Cons idx rest)
  then show ?case
    by (cases "valid_pos s doc_id idx") (auto simp: valid_pos_def split: sum.splits)
qed

lemma index_search_ranking:
  assumes "index_search ix q n = Inr I" "subseq ps I" "\<forall>p \<in> set ps. 0 \<le> p"
  shows "sorted (map (\<lambda>p. l2 q (ix ! nat p)) ps) \<and> distinct ps \<and>
         (\<forall>p \<in> set ps. nat p < length ix)"
proof -
  let ?f = "\<lambda>p. l2 q (ix ! p)"
  let ?S = "sort_key ?f [0..<length ix]"
  let ?M = "map int ?S"
  have I: "I = take n ?M @ replicate (n - length ix) (- 1)"
    using assms(1) by (auto simp: index_search_def split: if_splits)
  have "ps = filter (\<lambda>x. 0 \<le> x) ps" using assms(3) by simp
  moreover have "subseq (filter (\<lambda>x. 0 \<le> x) ps) (filter (\<lambda>x. 0 \<le> x) I)"
    using assms(2) by (rule subseq_filter)
  moreover have "filter (\<lambda>x. 0 \<le> x) I = take n ?M"
  proof -
    have "\<forall>x \<in> set (take n ?M). 0 \<le> x" by (auto dest!: in_set_takeD)
    then have "filter (\<lambda>x. 0 \<le> x) (take n ?M) = take n ?M" by simp
    then show ?thesis by (simp add: I)
  qed
  ultimately have "subseq ps (take n ?M)" by simp
  moreover have "subseq (take n ?M) ?M"
    by (rule prefix_imp_subseq) (rule take_is_prefix)
  ultimately have sub: "subseq ps ?M" by (rule subseq_order.order_trans)
  have "sorted (map ?f ?S)" by (rule sorted_sort_key)
  then have "sorted_wrt (\<lambda>a b. ?f (nat a) \<le> ?f (nat b)) ?M"
    by (simp add: sorted_map sorted_wrt_map)
  with sub have "sorted_wrt (\<lambda>a b. ?f (nat a) \<le> ?f (nat b)) ps"
    by (rule subseq_sorted_wrt)
  then have 1: "sorted (map (\<lambda>p. ?f (nat p)) ps)" by (simp add: sorted_map)
  have "distinct ?M" by (simp add: distinct_map)
  with sub have 2: "distinct ps" by (rule subseq_distinct)
  have "set ps \<subseteq> set ?M" using sub by (rule subseq_set)
  then have 3: "\<forall>p \<in> set ps. nat p < length ix" by auto
  from 1 2 3 show ?thesis by simp
qed

lemma index_search_all:
  assumes "length ix = n" "n \<noteq> 0"
  shows "\<exists>I. index_search ix q n = Inr I \<and> set I = int ` {0..<n}"
  using assms by (auto simp: index_search_def)

lemma search_unfold:
  assumes "search G s q doc_id k = Inr rs" "rs \<noteq> []"
  shows "\<exists>qe I. embed G (embeddings s) q = Inr qe \<and>
           index_search (index s) qe (length (doc_ids s)) = Inr I \<and>
           search_loop s doc_id k I [] {} = Inr rs"
  using assms by (auto simp: search_def split: if_splits sum.splits)

lemma search_positions:
  assumes "search G s q doc_id k = Inr rs" "embed G (embeddings s) q = Inr qe"
  shows "\<exists>ps. length ps = length rs \<and> distinct ps \<and>
           (\<forall>i < length rs. ps ! i < length (index s) \<and> valid_pos s doc_id (int (ps ! i)) \<and>
                             chunk_at s doc_id (int (ps ! i)) = Inr (rs ! i)) \<and>
           sorted (map (\<lambda>p. l2 qe (index s ! p)) ps) \<and> distinct (map fst rs)"
proof (cases "rs = []")
  case True
  then show ?thesis by (intro exI[of _ "[]"]) simp
next
  case False
  from search_unfold[OF assms(1) False] assms(2)
  obtain I where I: "index_search (index s) qe (length (doc_ids s)) = Inr I"
    and loop: "search_loop s doc_id k I [] {} = Inr rs" by auto
  from search_loop_sound[OF loop]
  obtain ps where ps: "subseq ps I" "rs = map (\<lambda>p. projr (chunk_at s doc_id p)) ps"
    "\<forall>p \<in> set ps. valid_pos s doc_id p \<and> (\<exists>c. chunk_at s doc_id p = Inr c)"
    "distinct (map (\<lambda>p. fst (projr (chunk_at s doc_id p))) ps)"
    by auto
  have nonneg: "\<forall>p \<in> set ps. 0 \<le> p" using ps(3) by (simp add: valid_pos_def)
  from index_search_ranking[OF I ps(1) nonneg]
  have r: "sorted (map (\<lambda>p. l2 qe (index s ! nat p)) ps)" "distinct ps"
    "\<forall>p \<in> set ps. nat p < length (index s)" by simp_all
  let ?ns = "map nat ps"
  have len: "length ?ns = length rs" by (simp add: ps(2))
  have inj: "inj_on nat (set ps)"
  proof (rule inj_onI)
    fix x y assume "x \<in> set ps" "y \<in> set ps" "nat x = nat y"
    then show "x = y" using nonneg by (simp add: eq_nat_nat_iff)
  qed
  have d: "distinct ?ns" using r(2) inj by (simp add: distinct_map)
  have el: "\<forall>i < length rs. ?ns ! i < length (index s) \<and> valid_pos s doc_id (int (?ns ! i)) \<and>
              chunk_at s doc_id (int (?ns ! i)) = Inr (rs ! i)"
  proof (intro allI impI)
    fix i assume i: "i < length rs"
    then have il: "i < length ps" by (simp add: ps(2))
    then have mem: "ps ! i \<in> set ps" by (rule nth_mem)
    have nn: "int (nat (ps ! i)) = ps ! i" using nonneg mem by simp
    obtain c where c: "chunk_at s doc_id (ps ! i) = Inr c" using ps(3) mem by blast
    have "rs ! i = projr (chunk_at s doc_id (ps ! i))" using il by (simp add: ps(2))
    then have "chunk_at s doc_id (ps ! i) = Inr (rs ! i)" using c by simp
    then show "?ns ! i < length (index s) \<and> valid_pos s doc_id (int (?ns ! i)) \<and>
              chunk_at s doc_id (int (?ns ! i)) = Inr (rs ! i)"
      using il mem r(3) ps(3) nn by simp
  qed
  have srt: "sorted (map (\<lambda>p. l2 qe (index s ! p)) ?ns)"
    using r(1) by (simp add: comp_def)
  have dt: "distinct (map fst rs)" using ps(4) by (simp add: ps(2) comp_def)
  from len d el srt dt show ?thesis by blast
qed

lemma search_complete:
  assumes "consistent s" "embed G (embeddings s) q = Inr qe" "doc_ids s \<noteq> []" "0 < k"
  shows "\<exists>rs. search G s q doc_id k = Inr rs \<and> fst ` set rs \<subseteq> chunk_texts s doc_id \<and>
              int (length rs) = min k (int (card (chunk_texts s doc_id))) \<and>
              (int (card (chunk_texts s doc_id)) < k \<longrightarrow> fst ` set rs = chunk_texts s doc_id)"
proof (cases "map_of (metadata s) doc_id")
  case None
  then show ?thesis using assms(4) by (simp add: search_def exists_def chunk_texts_def)
next
  case (Some cs)
  have d: "distinct (map fst (metadata s))" and li: "length (index s) = length (doc_ids s)"
    using assms(1) by (simp_all add: consistent_def)
  from map_of_nth[OF d Some] obtain i where i: "i < length (metadata s)"
    "metadata s ! i = (doc_id, cs)" by blast
  let ?st = "length (tags_of (take i (metadata s)))"
  have texts: "chunk_texts s doc_id = fst ` set cs" by (simp add: chunk_texts_def Some)
  note e = assms(2)
  have "length (doc_ids s) \<noteq> 0" using assms(3) by simp
  from index_search_all[OF li this, of qe]
  obtain I where I: "index_search (index s) qe (length (doc_ids s)) = Inr I"
    and setI: "set I = int ` {0..<length (doc_ids s)}" by blast
  have defd: "\<forall>p \<in> set I. valid_pos s doc_id p \<longrightarrow> (\<exists>c. chunk_at s doc_id p = Inr c)"
    using chunk_at_valid[OF assms(1) i] by blast
  from search_loop_total[OF defd]
  obtain rs where loop: "search_loop s doc_id k I [] {} = Inr rs" by blast
  have srch: "search G s q doc_id k = Inr rs"
    by (simp add: search_def exists_def Some e I loop)
  from search_loop_sound[OF loop]
  obtain ps where ps: "rs = map (\<lambda>p. projr (chunk_at s doc_id p)) ps"
    "\<forall>p \<in> set ps. valid_pos s doc_id p"
    "distinct (map (\<lambda>p. fst (projr (chunk_at s doc_id p))) ps)"
    by auto
  have sub: "set rs \<subseteq> set cs"
  proof
    fix r assume "r \<in> set rs"
    then obtain p where p: "p \<in> set ps" "r = projr (chunk_at s doc_id p)"
      by (auto simp: ps(1))
    then have v: "valid_pos s doc_id p" using ps(2) by blast
    from chunk_at_valid[OF assms(1) i v]
    have b: "nat p - ?st < length cs" and c: "chunk_at s doc_id p = Inr (cs ! (nat p - ?st))"
      by auto
    have "cs ! (nat p - ?st) \<in> set cs" using b by (rule nth_mem)
    then show "r \<in> set cs" using p(2) c by simp
  qed
  then have sub_t: "fst ` set rs \<subseteq> fst ` set cs" by blast
  have dt: "distinct (map fst rs)" using ps(3) by (simp add: ps(1) comp_def)
  then have cardrs: "card (fst ` set rs) = length rs"
    using distinct_card[of "map fst rs"] by simp
  have le_card: "length rs \<le> card (fst ` set cs)"
    using card_mono[OF _ sub_t] cardrs by simp
  have le_k: "int (length rs) \<le> k"
    using search_loop_length[OF loop] assms(4) by simp
  have all: "fst ` set rs = fst ` set cs" if short: "int (length rs) < k"
  proof
    show "fst ` set rs \<subseteq> fst ` set cs" by (rule sub_t)
    show "fst ` set cs \<subseteq> fst ` set rs"
    proof
      fix t assume "t \<in> fst ` set cs"
      then obtain j where j: "j < length cs" "t = fst (cs ! j)"
        by (auto simp: in_set_conv_nth)
      define p where "p = int (?st + j)"
      from chunk_position[OF assms(1) i j(1) p_def]
      have v: "valid_pos s doc_id p" and c: "chunk_at s doc_id p = Inr (cs ! j)" by simp_all
      have "p \<in> set I" using v unfolding setI valid_pos_def
        by (intro image_eqI[of _ _ "nat p"]) auto
      from search_loop_complete[OF loop short this v] c j(2)
      show "t \<in> fst ` set rs" by simp
    qed
  qed
  have len: "int (length rs) = min k (int (card (fst ` set cs)))"
  proof (cases "int (length rs) < k")
    case True
    from all[OF True] cardrs have "length rs = card (fst ` set cs)" by simp
    with True show ?thesis by simp
  next
    case False
    with le_k have "int (length rs) = k" by simp
    with le_card show ?thesis by simp
  qed
  have "int (card (fst ` set cs)) < k \<longrightarrow> fst ` set rs = fst ` set cs"
    using all le_card by auto
  with srch sub_t len show ?thesis unfolding texts by blast
qed

lemma ingest_all_nonempty:
  "ingest_all G docs (s0, d0) = (rs, s, d) \<Longrightarrow> \<forall>r \<in> set rs. r = Inr () \<Longrightarrow>
   \<forall>doc \<in> set docs. fst (snd doc) \<noteq> []"
proof (induction docs arbitrary: s0 d0 rs)
  case Nil
  then show ?case by simp
next
  case (Cons doc docs)
  obtain i cwp fn where doc: "doc = (i, cwp, fn)" by (cases doc)
  obtain r s1 d1 where a: "add_document G i cwp fn (s0, d0) = (r, s1, d1)"
    by (cases "add_document G i cwp fn (s0, d0)")
  obtain rs' where rest: "ingest_all G docs (s1, d1) = (rs', s, d)" and rs: "rs = r # rs'"
    using Cons.prems(1) doc a by (auto split: prod.splits)
  have ok: "r = Inr ()" and oks: "\<forall>r \<in> set rs'. r = Inr ()"
    using Cons.prems(2) rs by simp_all
  have "cwp \<noteq> []" using add_document_success[OF a[unfolded ok]] by simp
  with Cons.IH[OF rest oks] show ?case by (simp add: doc)
qed

lemma after_A_eq: "after_A = (Inr (), store_A, disk_A)"
  by (simp add: after_A_def startup_def load_state_def FAISSVectorStore_init_def
        Doc2VecEmbeddings_init_def load_model_def add_document_def fit_def stub_def
        preprocess_text_def enumerate_eq_zip save_model_def embed_batch_def index_add_def
        save_state_def store_A_def disk_A_def empty_disk_def chunks_A_def Let_def)

lemma consistent_store_A: "consistent store_A"
  by (simp add: consistent_def store_A_def tags_of_def chunks_A_def)

section \<open>The claims\<close>

text \<open>
  C1, as the code has it.  For a call \<open>search(query, doc_id, k)\<close> with \<open>k\<close> positive, on
  any store: a returned sequence has at most \<open>k\<close> entries, no two of them with the same
  chunk text, and each entry is the chunk read for an index position whose tag is \<open>doc_id\<close>.
  On a consistent store, where index, tag sequence and registry are in step, with a
  non-empty index and a query that the model embeds, the call returns; the texts it returns
  are texts of the document, their number is the smaller of \<open>k\<close> and the number of distinct
  chunk texts of the document, and when the document has fewer than \<open>k\<close> distinct texts all
  of them are returned.  The stores that successful ingestion of distinct identifiers
  builds from the empty one are consistent (\<open>ingest_all_consistent\<close>).
\<close>

theorem search_top_k:
  assumes "0 < k"
  shows "(\<forall>rs. search G s q doc_id k = Inr rs \<longrightarrow>
            int (length rs) \<le> k \<and> distinct (map fst rs) \<and>
            (\<forall>r \<in> set rs. \<exists>p. valid_pos s doc_id p \<and> chunk_at s doc_id p = Inr r)) \<and>
         (consistent s \<and> (\<exists>qe. embed G (embeddings s) q = Inr qe) \<and> doc_ids s \<noteq> [] \<longrightarrow>
            (\<exists>rs. search G s q doc_id k = Inr rs \<and>
                  fst ` set rs \<subseteq> chunk_texts s doc_id \<and>
                  int (length rs) = min k (int (card (chunk_texts s doc_id))) \<and>
                  (int (card (chunk_texts s doc_id)) < k \<longrightarrow>
                     fst ` set rs = chunk_texts s doc_id)))"
proof (intro conjI allI impI)
  fix rs assume r: "search G s q doc_id k = Inr rs"
  show "int (length rs) \<le> k"
  proof (cases "rs = []")
    case True
    then show ?thesis using assms by simp
  next
    case False
    from search_unfold[OF r False] obtain I where "search_loop s doc_id k I [] {} = Inr rs"
      by blast
    from search_loop_length[OF this] assms show ?thesis by simp
  qed
  have pos: "distinct (map fst rs) \<and>
             (\<forall>r \<in> set rs. \<exists>p. valid_pos s doc_id p \<and> chunk_at s doc_id p = Inr r)"
  proof (cases "rs = []")
    case True
    then show ?thesis by simp
  next
    case False
    from search_unfold[OF r False] obtain qe where "embed G (embeddings s) q = Inr qe"
      by blast
    from search_positions[OF r this] obtain ps where ps: "length ps = length rs"
      "\<forall>i < length rs. valid_pos s doc_id (int (ps ! i)) \<and>
                         chunk_at s doc_id (int (ps ! i)) = Inr (rs ! i)"
      "distinct (map fst rs)" by blast
    have "\<exists>p. valid_pos s doc_id p \<and> chunk_at s doc_id p = Inr x" if "x \<in> set rs" for x
    proof -
      from that obtain i where "i < length rs" "x = rs ! i" by (auto simp: in_set_conv_nth)
      with ps(2) show ?thesis by blast
    qed
    with ps(3) show ?thesis by blast
  qed
  from pos show "distinct (map fst rs)" by blast
  from pos show "\<forall>r \<in> set rs. \<exists>p. valid_pos s doc_id p \<and> chunk_at s doc_id p = Inr r"
    by blast
next
  assume "consistent s \<and> (\<exists>qe. embed G (embeddings s) q = Inr qe) \<and> doc_ids s \<noteq> []"
  then obtain qe where "consistent s" "embed G (embeddings s) q = Inr qe" "doc_ids s \<noteq> []"
    by blast
  from search_complete[OF this assms]
  show "\<exists>rs. search G s q doc_id k = Inr rs \<and>
             fst ` set rs \<subseteq> chunk_texts s doc_id \<and>
             int (length rs) = min k (int (card (chunk_texts s doc_id))) \<and>
             (int (card (chunk_texts s doc_id)) < k \<longrightarrow> fst ` set rs = chunk_texts s doc_id)" .
qed

theorem search_top_k_witness:
  "\<exists>rs. search stub store_A ''method'' ''A'' 5 = Inr rs \<and> int (length rs) = 3 \<and>
        distinct (map fst rs) \<and> fst ` set rs = fst ` set chunks_A"
proof -
  have k: "(0::int) < 5" by simp
  have "embed stub (embeddings store_A) ''method'' = Inr [6]"
    by (simp add: embed_def store_A_def stub_def preprocess_text_def)
  then have h: "consistent store_A \<and> (\<exists>qe. embed stub (embeddings store_A) ''method'' = Inr qe) \<and>
                doc_ids store_A \<noteq> []"
    using consistent_store_A by (simp add: store_A_def)
  have t: "chunk_texts store_A ''A'' = fst ` set chunks_A"
    by (simp add: chunk_texts_def store_A_def)
  have c: "card (chunk_texts store_A ''A'') = 3"
    by (simp add: t chunks_A_def)
  from search_top_k[OF k, of stub store_A "''method''" "''A''"] h
  obtain rs where rs: "search stub store_A ''method'' ''A'' 5 = Inr rs"
    "int (length rs) = min 5 (int (card (chunk_texts store_A ''A'')))"
    "int (card (chunk_texts store_A ''A'')) < 5 \<longrightarrow> fst ` set rs = chunk_texts store_A ''A''"
    "distinct (map fst rs)"
    by blast
  from rs(2) have l: "int (length rs) = 3" by (simp add: c)
  from rs(3) have "fst ` set rs = chunk_texts store_A ''A''" by (simp add: c)
  then have "fst ` set rs = fst ` set chunks_A" by (simp only: t)
  with rs(1,4) l show ?thesis by blast
qed

text \<open>
  C1, as the claim states it for every store, fails on stores that are not consistent.
  After the start on the torn disk and the ingestion of a document of two texts, a search
  for five chunks of that document returns one.  After a second ingestion under the
  identifier of the first document, a search in it raises \<open>IndexError\<close>.
\<close>

theorem search_every_store_counterexample:
  "search stub torn_B ''method uses Y'' ''B'' 5 = Inr [(''short'', 4)] \<and>
   chunk_texts torn_B ''B'' = {''data about X set'', ''short''} \<and>
   search stub dup_A ''method'' ''A'' 5 = Inl IndexError"
proof -
  have l: "startup torn_disk
     = \<lparr>embeddings = \<lparr>model = Some 3\<rparr>, index = [[18], [13], [14]], metadata = [],
        doc_ids = [], filenames = []\<rparr>"
    by (simp add: startup_def load_state_def FAISSVectorStore_init_def
          Doc2VecEmbeddings_init_def load_model_def torn_disk_def)
  have b: "torn_B = \<lparr>embeddings = \<lparr>model = Some 3\<rparr>, index = [[18], [13], [14], [16], [5]],
         metadata = [(''B'', chunks_B)], doc_ids = [''B'', ''B''],
         filenames = [(''B'', ''b.pdf'')]\<rparr>"
    by (simp add: torn_B_def l add_document_def stub_def preprocess_text_def embed_batch_def
          index_add_def chunks_B_def Let_def)
  have a: "dup_A = \<lparr>embeddings = \<lparr>model = Some 3\<rparr>, index = [[18], [13], [14], [16], [5]],
         metadata = [(''A'', chunks_B)], doc_ids = [''A'', ''A'', ''A'', ''A'', ''A''],
         filenames = [(''A'', ''a2.pdf'')]\<rparr>"
    by (simp add: dup_A_def store_A_def add_document_def stub_def preprocess_text_def
          embed_batch_def index_add_def chunks_A_def chunks_B_def Let_def)
  have 1: "search stub torn_B ''method uses Y'' ''B'' 5 = Inr [(''short'', 4)]"
    by (simp add: b search_def exists_def chunks_B_def embed_def stub_def preprocess_text_def
          index_search_def l2_def upt_rec chunk_at_def get_doc_start_idx_def py_index_def
          Let_def)
  have 2: "chunk_texts torn_B ''B'' = {''data about X set'', ''short''}"
    by (simp add: b chunk_texts_def chunks_B_def)
  have 3: "search stub dup_A ''method'' ''A'' 5 = Inl IndexError"
    by (simp add: a search_def exists_def chunks_B_def embed_def stub_def preprocess_text_def
          index_search_def l2_def upt_rec chunk_at_def get_doc_start_idx_def py_index_def
          Let_def)
  from 1 2 3 show ?thesis by simp
qed

text \<open>
  C2.  The sequence that \<open>search\<close> returns is in the order of non-decreasing L2 distance to
  the query embedding: its entries are the chunks read for pairwise different index
  positions, each tagged with \<open>doc_id\<close>, and the distances between the query embedding and
  the vectors stored at these positions, taken in the order of the results, never decrease.
\<close>

theorem search_ordered_by_distance:
  assumes "search G s q doc_id k = Inr rs" and "embed G (embeddings s) q = Inr qe"
  shows "\<exists>ps. length ps = length rs \<and> distinct ps \<and>
              (\<forall>i < length rs. ps ! i < length (index s) \<and>
                                valid_pos s doc_id (int (ps ! i)) \<and>
                                chunk_at s doc_id (int (ps ! i)) = Inr (rs ! i)) \<and>
              sorted (map (\<lambda>p. l2 qe (index s ! p)) ps)"
  using search_positions[OF assms] by blast

lemma search_A:
  "search stub store_A ''method'' ''A'' 2 = Inr [(''method uses Y'', 2), (''results show Z'', 3)]"
  by (simp add: search_def exists_def store_A_def chunks_A_def embed_def stub_def
        preprocess_text_def index_search_def l2_def upt_rec chunk_at_def get_doc_start_idx_def
        py_index_def Let_def)

theorem search_ordered_by_distance_witness:
  "\<exists>ps. length ps = 2 \<and> distinct ps \<and>
        chunk_at store_A ''A'' (int (ps ! 0)) = Inr (''method uses Y'', 2) \<and>
        chunk_at store_A ''A'' (int (ps ! 1)) = Inr (''results show Z'', 3) \<and>
        sorted (map (\<lambda>p. l2 [6] (index store_A ! p)) ps)"
proof -
  have e: "embed stub (embeddings store_A) ''method'' = Inr [6]"
    by (simp add: embed_def store_A_def stub_def preprocess_text_def)
  from search_ordered_by_distance[OF search_A e]
  obtain ps where ps: "length ps = length [(''method uses Y'', 2::int), (''results show Z'', 3)]"
    "distinct ps"
    "\<forall>i < length [(''method uses Y'', 2::int), (''results show Z'', 3)].
        chunk_at store_A ''A'' (int (ps ! i)) =
        Inr ([(''method uses Y'', 2), (''results show Z'', 3)] ! i)"
    "sorted (map (\<lambda>p. l2 [6] (index store_A ! p)) ps)"
    by blast
  from ps(3) have "chunk_at store_A ''A'' (int (ps ! 0)) = Inr (''method uses Y'', 2)"
    "chunk_at store_A ''A'' (int (ps ! 1)) = Inr (''results show Z'', 3)"
    by auto
  with ps(1,2,4) show ?thesis by (intro exI[of _ ps]) simp
qed

text \<open>
  C3.  After a run of \<open>add_document\<close> calls on a new store that all succeed and carry
  pairwise different identifiers, the index holds as many vectors as there are tags, and as
  many as the registered documents have chunks; the registry lists the documents in the
  order of ingestion; the tag sequence is the sequence of the documents' blocks, one tag per
  chunk, in that order.  So the positions tagged with the \<open>i\<close>-th document are those from
  \<open>doc_start docs i\<close> up to its number of chunks further, a range that the documents
  ingested before it determine and no later document enters, and \<open>_get_doc_start_idx\<close>
  returns its first position.
\<close>

theorem ingest_all_layout:
  assumes "ingest_all G docs (FAISSVectorStore_init d0, d0) = (rs, s, d)"
    and "\<forall>r \<in> set rs. r = Inr ()"
    and "distinct (map fst docs)"
  shows "length (index s) = length (doc_ids s) \<and>
         length (doc_ids s) = chunk_total s \<and>
         metadata s = registry_of docs \<and>
         doc_ids s = concat (map (\<lambda>(doc_id, cwp, fn). replicate (length cwp) doc_id) docs) \<and>
         (\<forall>i < length docs.
            get_doc_start_idx s (fst (docs ! i)) = int (doc_start docs i) \<and>
            (\<forall>p < length (doc_ids s).
               doc_ids s ! p = fst (docs ! i) \<longleftrightarrow>
               doc_start docs i \<le> p \<and> p < doc_start docs i + length (fst (snd (docs ! i)))))"
proof -
  have "fst ` set docs \<inter> fst ` set (metadata (FAISSVectorStore_init d0)) = {}"
    by (simp add: FAISSVectorStore_init_def)
  from ingest_all_consistent[OF assms init_consistent this]
  have c: "consistent s" and md: "metadata s = registry_of docs"
    by (simp_all add: FAISSVectorStore_init_def)
  have t: "doc_ids s = tags_of (registry_of docs)" and dk: "distinct (map fst (registry_of docs))"
    and li: "length (index s) = length (doc_ids s)"
    using c by (simp_all add: consistent_def md)
  have tot: "length (doc_ids s) = chunk_total s"
    by (simp add: t md chunk_total_def length_tags_of)
  have blocks: "doc_ids s = concat (map (\<lambda>(doc_id, cwp, fn). replicate (length cwp) doc_id) docs)"
    by (simp add: t tags_of_registry)
  have ranges: "get_doc_start_idx s (fst (docs ! i)) = int (doc_start docs i) \<and>
                (\<forall>p < length (doc_ids s).
                   doc_ids s ! p = fst (docs ! i) \<longleftrightarrow>
                   doc_start docs i \<le> p \<and> p < doc_start docs i + length (fst (snd (docs ! i))))"
    if i: "i < length docs" for i
  proof -
    have il: "i < length (metadata s)" using i by (simp add: md registry_of_def)
    have ri: "metadata s ! i = (fst (docs ! i), fst (snd (docs ! i)))"
      using i by (simp add: md registry_of_def case_prod_unfold)
    have ne: "fst (snd (docs ! i)) \<noteq> []"
      using ingest_all_nonempty[OF assms(1,2)] i by simp
    have st: "length (tags_of (take i (metadata s))) = doc_start docs i"
      unfolding md by (rule length_tags_of_take)
    have 1: "get_doc_start_idx s (fst (docs ! i)) = int (doc_start docs i)"
      using start_of_document[OF c il ri ne] st by simp
    have 2: "doc_ids s ! p = fst (docs ! i) \<longleftrightarrow>
             doc_start docs i \<le> p \<and> p < doc_start docs i + length (fst (snd (docs ! i)))"
      if "p < length (doc_ids s)" for p
    proof -
      have d: "distinct (map fst (metadata s))" using dk by (simp add: md)
      have pl: "p < length (tags_of (metadata s))" using that by (simp add: t md)
      from tags_range[OF d il ri pl] show ?thesis by (simp add: t md[symmetric] st)
    qed
    from 1 2 show ?thesis by blast
  qed
  from li tot md blocks ranges show ?thesis by blast
qed


lemma ingest_AB:
  "fst (ingest_all stub docs_AB (FAISSVectorStore_init empty_disk, empty_disk)) = [Inr (), Inr ()]"
  by (simp add: docs_AB_def FAISSVectorStore_init_def Doc2VecEmbeddings_init_def load_model_def
        add_document_def fit_def stub_def preprocess_text_def enumerate_eq_zip save_model_def
        embed_batch_def index_add_def save_state_def empty_disk_def chunks_A_def chunks_B_def
        Let_def)

theorem ingest_all_layout_witness:
  "doc_ids (fst (snd (ingest_all stub docs_AB (FAISSVectorStore_init empty_disk, empty_disk))))
     = [''A'', ''A'', ''A'', ''B'', ''B''] \<and>
   length (index (fst (snd (ingest_all stub docs_AB
                              (FAISSVectorStore_init empty_disk, empty_disk))))) = 5 \<and>
   get_doc_start_idx (fst (snd (ingest_all stub docs_AB
                                 (FAISSVectorStore_init empty_disk, empty_disk)))) ''B'' = 3"
proof -
  let ?R = "ingest_all stub docs_AB (FAISSVectorStore_init empty_disk, empty_disk)"
  have h1: "?R = (fst ?R, fst (snd ?R), snd (snd ?R))" by simp
  have h2: "\<forall>r \<in> set (fst ?R). r = Inr ()" by (simp add: ingest_AB)
  have h3: "distinct (map fst docs_AB)" by (simp add: docs_AB_def)
  from ingest_all_layout[OF h1 h2 h3]
  have a: "length (index (fst (snd ?R))) = length (doc_ids (fst (snd ?R)))"
    and b: "doc_ids (fst (snd ?R)) =
            concat (map (\<lambda>(doc_id, cwp, fn). replicate (length cwp) doc_id) docs_AB)"
    and c: "\<forall>i < length docs_AB.
              get_doc_start_idx (fst (snd ?R)) (fst (docs_AB ! i)) = int (doc_start docs_AB i)"
    by blast+
  have b': "doc_ids (fst (snd ?R)) = [''A'', ''A'', ''A'', ''B'', ''B'']"
    unfolding b by (simp add: docs_AB_def chunks_A_def chunks_B_def)
  have "1 < length docs_AB" by (simp add: docs_AB_def)
  with c have "get_doc_start_idx (fst (snd ?R)) (fst (docs_AB ! 1)) = int (doc_start docs_AB 1)"
    by blast
  then have c': "get_doc_start_idx (fst (snd ?R)) ''B'' = 3"
    by (simp add: docs_AB_def doc_start_def chunks_A_def)
  from a b' c' show ?thesis by simp
qed

text \<open>
  C4.  Saving a store and loading the saved state into a new instance gives the store back,
  whenever the new instance has the embedding model of the original (the same deterministic
  embedding function): \<open>load\<close> reports success, the loaded store is the original one, and so
  \<open>exists\<close>, \<open>get_filename\<close> and \<open>search\<close> answer every call alike.
\<close>

theorem save_load_roundtrip:
  assumes "embeddings (FAISSVectorStore_init (save_state s d)) = embeddings s"
  shows "load_state (FAISSVectorStore_init (save_state s d)) (save_state s d) = (True, s) \<and>
         (\<forall>doc_id q k.
            exists (startup (save_state s d)) doc_id = exists s doc_id \<and>
            get_filename (startup (save_state s d)) doc_id = get_filename s doc_id \<and>
            search G (startup (save_state s d)) q doc_id k = search G s q doc_id k)"
  using roundtrip[OF assms] by (simp add: startup_def)

theorem save_load_roundtrip_witness:
  "load_state (FAISSVectorStore_init (save_state store_A disk_A)) (save_state store_A disk_A)
     = (True, store_A) \<and>
   search stub (startup (save_state store_A disk_A)) ''method'' ''A'' 2
     = search stub store_A ''method'' ''A'' 2"
proof -
  have h: "embeddings (FAISSVectorStore_init (save_state store_A disk_A)) = embeddings store_A"
    by (simp add: FAISSVectorStore_init_def Doc2VecEmbeddings_init_def load_model_def
          save_state_def store_A_def disk_A_def)
  from save_load_roundtrip[OF h, of stub] show ?thesis by blast
qed

text \<open>
  The hypothesis of the round trip holds along ingestion: the model that a new instance
  finds on disk is the model in memory at start and after every \<open>add_document\<close> that
  returns.
\<close>

lemma startup_model_on_disk: "embeddings (startup d) = Doc2VecEmbeddings_init d"
  by (simp add: startup_def load_state_def FAISSVectorStore_init_def Let_def
           split: artifact.splits option.splits)

lemma save_state_model: "Doc2VecEmbeddings_init (save_state s d) = Doc2VecEmbeddings_init d"
  by (simp add: Doc2VecEmbeddings_init_def load_model_def save_state_def)

lemma add_document_model_on_disk:
  assumes "add_document G doc_id cwp fn (s, d) = (Inr (), s', d')"
    and "embeddings s = Doc2VecEmbeddings_init d"
  shows "embeddings s' = Doc2VecEmbeddings_init d'"
  using assms
  by (auto simp: add_document_def Let_def fit_def save_model_def save_state_def
                 Doc2VecEmbeddings_init_def load_model_def
           split: prod.splits sum.splits if_splits option.splits artifact.splits)

text \<open>
  C5, as the code has it.  \<open>fit\<close> has no guard: on a trained model it builds and trains a
  new model on the given texts, as it does on an untrained one, and puts it in the place of
  the old.  The guard is in \<open>add_document\<close>, which calls \<open>fit\<close> only while no model is set:
  an \<open>add_document\<close> on a store whose model is set leaves the model and the model file as
  they are.
\<close>

theorem fit_retrains_add_document_guards:
  "fit G texts (E, d) = fit G texts (E\<lparr>model := None\<rparr>, d) \<and>
   (model (embeddings s) \<noteq> None \<longrightarrow>
      embeddings (fst (snd (add_document G doc_id cwp fn (s, d0)))) = embeddings s \<and>
      model_file (snd (snd (add_document G doc_id cwp fn (s, d0)))) = model_file d0)"
proof (intro conjI impI)
  show "fit G texts (E, d) = fit G texts (E\<lparr>model := None\<rparr>, d)"
    by (simp add: fit_def Let_def save_model_def split: prod.splits option.splits)
next
  assume "model (embeddings s) \<noteq> None"
  then obtain m where m: "model (embeddings s) = Some m" by blast
  obtain r s' d' where a: "add_document G doc_id cwp fn (s, d0) = (r, s', d')"
    by (cases "add_document G doc_id cwp fn (s, d0)")
  from add_document_trained[OF m a]
  show "embeddings (fst (snd (add_document G doc_id cwp fn (s, d0)))) = embeddings s"
    "model_file (snd (snd (add_document G doc_id cwp fn (s, d0)))) = model_file d0"
    by (simp_all add: a)
qed

theorem fit_retrains_add_document_guards_witness:
  "embeddings (fst (snd (add_document stub ''B'' chunks_B ''b.pdf'' (store_A, disk_A))))
     = \<lparr>model = Some 3\<rparr> \<and>
   model_file (snd (snd (add_document stub ''B'' chunks_B ''b.pdf'' (store_A, disk_A))))
     = Stored 3"
proof -
  have h: "model (embeddings store_A) \<noteq> None" by (simp add: store_A_def)
  from fit_retrains_add_document_guards[of stub "[]" "\<lparr>model = None\<rparr>" empty_disk store_A
         "''B''" chunks_B "''b.pdf''" disk_A] h
  show ?thesis by (simp add: store_A_def disk_A_def)
qed

text \<open>
  C5, as the claim states it, fails: a second \<open>fit\<close>, on two texts, of the model that the
  first document trained on three texts, leaves another model.
\<close>

theorem fit_noop_counterexample:
  "fst (snd (fit stub [''c'', ''d''] (embeddings store_A, disk_A))) \<noteq> embeddings store_A"
  by (simp add: fit_def stub_def preprocess_text_def enumerate_eq_zip save_model_def
        store_A_def Let_def)

text \<open>
  What the guard of \<open>embed\<close> and \<open>embed_batch\<close> does: with no model set both raise the
  model-not-trained error; with a model set they are the inference of gensim, and a batch
  that returns holds the embeddings of the given texts, one for each, in their order.
\<close>

lemma embed_guard:
  "model E = None \<Longrightarrow>
   embed G E text = Inl ModelNotTrained \<and> embed_batch G E texts = Inl ModelNotTrained"
  by (simp add: embed_def embed_batch_def)

lemma embed_batch_in_order:
  assumes "model E = Some m" "embed_batch G E texts = Inr vs"
  shows "length vs = length texts \<and>
         (\<forall>i < length texts. infer_vector G m (preprocess_text G (texts ! i)) = Inr (vs ! i))"
proof -
  have "infer_all G m (map (preprocess_text G) texts) = Inr vs"
    using assms by (simp add: embed_batch_def)
  from infer_all_result[OF this] show ?thesis by simp
qed

text \<open>
  C6, at the input where the code departs from it.  \<open>fit\<close> puts the new object into
  \<open>self.model\<close> before it trains it.  When training raises, as on a corpus of one text
  here, the object stays: the model was never fitted, and yet it is not \<open>None\<close>, so the
  guard lets \<open>embed\<close> and \<open>embed_batch\<close> through and what they raise is the error of the
  inference, not the model-not-trained error.
\<close>

theorem embed_after_failed_fit:
  "fit stub [''only one chunk''] (\<lparr>model = None\<rparr>, empty_disk)
     = (Inl GensimError, \<lparr>model = Some 0\<rparr>, empty_disk) \<and>
   embed stub \<lparr>model = Some 0\<rparr> ''query'' = Inl KeyError \<and>
   embed_batch stub \<lparr>model = Some 0\<rparr> [''query''] = Inl KeyError"
  by (simp add: fit_def embed_def embed_batch_def stub_def preprocess_text_def enumerate_eq_zip
        Let_def)

text \<open>
  C7.  An identifier that the store did not know at the start of a run and that no
  \<open>add_document\<close> call of the run carried, whether the call returned or raised, is unknown at
  the end: \<open>exists\<close> is false, \<open>get_filename\<close> gives nothing and \<open>search\<close> returns the empty
  sequence, none of them raising.
\<close>

theorem unknown_doc_id:
  assumes "ingest_all G docs (s0, d0) = (rs, s, d)"
    and "doc_id \<notin> fst ` set docs"
    and "\<not> exists s0 doc_id" and "get_filename s0 doc_id = None"
  shows "\<not> exists s doc_id \<and> get_filename s doc_id = None \<and> search G s q doc_id k = Inr []"
  using ingest_all_unknown[OF assms(1,2)] assms(3,4)
  by (simp add: exists_def get_filename_def search_def)

theorem unknown_doc_id_witness:
  "\<not> exists (fst (snd (ingest_all stub docs_AB (startup empty_disk, empty_disk)))) ''C'' \<and>
   get_filename (fst (snd (ingest_all stub docs_AB (startup empty_disk, empty_disk)))) ''C''
     = None \<and>
   search stub (fst (snd (ingest_all stub docs_AB (startup empty_disk, empty_disk))))
     ''method'' ''C'' 5 = Inr []"
proof -
  let ?R = "ingest_all stub docs_AB (startup empty_disk, empty_disk)"
  have s0: "startup empty_disk = \<lparr>embeddings = \<lparr>model = None\<rparr>, index = [], metadata = [],
                                    doc_ids = [], filenames = []\<rparr>"
    by (simp add: startup_def load_state_def FAISSVectorStore_init_def
          Doc2VecEmbeddings_init_def load_model_def empty_disk_def)
  have h1: "?R = (fst ?R, fst (snd ?R), snd (snd ?R))" by simp
  have h2: "''C'' \<notin> fst ` set docs_AB" by (simp add: docs_AB_def)
  have h3: "\<not> exists (startup empty_disk) ''C''" by (simp add: s0 exists_def)
  have h4: "get_filename (startup empty_disk) ''C'' = None" by (simp add: s0 get_filename_def)
  from unknown_doc_id[OF h1 h2 h3 h4] show ?thesis .
qed

text \<open>
  C8.  When \<open>add_document(doc_id, chunks, filename)\<close> returns, \<open>exists(doc_id)\<close> is true and
  \<open>get_filename(doc_id)\<close> is the filename given.
\<close>

theorem add_document_registers:
  assumes "add_document G doc_id cwp fn (s, d) = (Inr (), s', d')"
  shows "exists s' doc_id \<and> get_filename s' doc_id = Some fn"
  using add_document_registry[OF assms]
  by (simp add: exists_def get_filename_def update_conv')

theorem add_document_registers_witness:
  "exists store_A ''A'' \<and> get_filename store_A ''A'' = Some ''a.pdf''"
  using add_document_registers[OF after_A_eq[unfolded after_A_def]] .

text \<open>
  C9, at the input where the code departs from it.  With an intact index file and an
  unreadable registry file, \<open>_load_state\<close> has replaced the index before the exception
  stops it: it returns \<open>False\<close> and leaves three vectors in the index and nothing in the
  registry.  The next \<open>add_document\<close> returns, with five vectors against two tags, and a
  search in the new document is answered with the chunk that shares its position with a
  vector of the lost one: the query as long as a lost chunk gets \<open>short\<close>, not the nearer
  chunk of the document.
\<close>

theorem load_state_torn_disk:
  "load_state (FAISSVectorStore_init torn_disk) torn_disk
     = (False, \<lparr>embeddings = \<lparr>model = Some 3\<rparr>, index = [[18], [13], [14]], metadata = [],
                doc_ids = [], filenames = []\<rparr>) \<and>
   fst (add_document stub ''B'' chunks_B ''b.pdf'' (startup torn_disk, torn_disk)) = Inr () \<and>
   length (index (fst (snd (add_document stub ''B'' chunks_B ''b.pdf''
                              (startup torn_disk, torn_disk))))) = 5 \<and>
   length (doc_ids (fst (snd (add_document stub ''B'' chunks_B ''b.pdf''
                                (startup torn_disk, torn_disk))))) = 2 \<and>
   search stub (fst (snd (add_document stub ''B'' chunks_B ''b.pdf''
                            (startup torn_disk, torn_disk)))) ''method uses Y'' ''B'' 1
     = Inr [(''short'', 4)]"
proof -
  have l: "load_state (FAISSVectorStore_init torn_disk) torn_disk
     = (False, \<lparr>embeddings = \<lparr>model = Some 3\<rparr>, index = [[18], [13], [14]], metadata = [],
                doc_ids = [], filenames = []\<rparr>)"
    by (simp add: load_state_def FAISSVectorStore_init_def Doc2VecEmbeddings_init_def
          load_model_def torn_disk_def)
  have a: "add_document stub ''B'' chunks_B ''b.pdf'' (startup torn_disk, torn_disk)
     = (Inr (),
        \<lparr>embeddings = \<lparr>model = Some 3\<rparr>, index = [[18], [13], [14], [16], [5]],
         metadata = [(''B'', chunks_B)], doc_ids = [''B'', ''B''],
         filenames = [(''B'', ''b.pdf'')]\<rparr>,
        save_state \<lparr>embeddings = \<lparr>model = Some 3\<rparr>, index = [[18], [13], [14], [16], [5]],
         metadata = [(''B'', chunks_B)], doc_ids = [''B'', ''B''],
         filenames = [(''B'', ''b.pdf'')]\<rparr> torn_disk)"
    by (simp add: startup_def l add_document_def stub_def preprocess_text_def embed_batch_def
          index_add_def chunks_B_def Let_def)
  have s: "search stub \<lparr>embeddings = \<lparr>model = Some 3\<rparr>, index = [[18], [13], [14], [16], [5]],
         metadata = [(''B'', chunks_B)], doc_ids = [''B'', ''B''],
         filenames = [(''B'', ''b.pdf'')]\<rparr> ''method uses Y'' ''B'' 1 = Inr [(''short'', 4)]"
    by (simp add: search_def exists_def chunks_B_def embed_def stub_def preprocess_text_def
          index_search_def l2_def upt_rec chunk_at_def get_doc_start_idx_def py_index_def
          Let_def)
  from l a s show ?thesis by simp
qed

text \<open>
  C10.  \<open>add_document\<close> writes the registry first.  When it raises, the chunks and the
  filename of the document are registered, \<open>exists(doc_id)\<close> is true, and neither the index
  nor the tag sequence nor the two state files have changed; so, for a new document with at
  least one chunk, the length equality that held before the call does not hold after it.
\<close>

theorem add_document_failure_not_atomic:
  assumes "add_document G doc_id cwp fn (s, d) = (Inl e, s', d')"
  shows "exists s' doc_id \<and> get_filename s' doc_id = Some fn \<and>
         map_of (metadata s') doc_id = Some cwp \<and>
         index s' = index s \<and> doc_ids s' = doc_ids s \<and>
         index_file d' = index_file d \<and> state_file d' = state_file d \<and>
         (lengths_agree s \<and> \<not> exists s doc_id \<and> cwp \<noteq> [] \<longrightarrow> \<not> lengths_agree s')"
proof -
  note reg = add_document_registry[OF assms]
  note frame = add_document_failure_frame[OF assms]
  have 1: "exists s' doc_id \<and> get_filename s' doc_id = Some fn \<and>
           map_of (metadata s') doc_id = Some cwp"
    using reg by (simp add: exists_def get_filename_def update_conv')
  have 2: "\<not> lengths_agree s'" if "lengths_agree s" "\<not> exists s doc_id" "cwp \<noteq> []"
  proof -
    have "map_of (metadata s) doc_id = None" using that(2) by (simp add: exists_def)
    then have "metadata s' = metadata s @ [(doc_id, cwp)]"
      using reg update_new_key by simp
    then have "chunk_total s' = chunk_total s + length cwp" by (simp add: chunk_total_def)
    moreover have "length (doc_ids s') = chunk_total s"
      using frame that(1) by (simp add: lengths_agree_def)
    ultimately show ?thesis using that(3) by (simp add: lengths_agree_def)
  qed
  from 1 2 frame show ?thesis by blast
qed

theorem add_document_failure_not_atomic_witness:
  "fst (add_document stub ''S'' [(''only one chunk'', 1)] ''s.pdf''
          (FAISSVectorStore_init empty_disk, empty_disk)) = Inl GensimError \<and>
   exists (fst (snd (add_document stub ''S'' [(''only one chunk'', 1)] ''s.pdf''
                       (FAISSVectorStore_init empty_disk, empty_disk)))) ''S'' \<and>
   doc_ids (fst (snd (add_document stub ''S'' [(''only one chunk'', 1)] ''s.pdf''
                        (FAISSVectorStore_init empty_disk, empty_disk)))) = [] \<and>
   \<not> lengths_agree (fst (snd (add_document stub ''S'' [(''only one chunk'', 1)] ''s.pdf''
                                (FAISSVectorStore_init empty_disk, empty_disk))))"
proof -
  let ?s0 = "FAISSVectorStore_init empty_disk"
  let ?R = "add_document stub ''S'' [(''only one chunk'', 1)] ''s.pdf'' (?s0, empty_disk)"
  have s0: "?s0 = \<lparr>embeddings = \<lparr>model = None\<rparr>, index = [], metadata = [], doc_ids = [],
                   filenames = []\<rparr>"
    by (simp add: FAISSVectorStore_init_def Doc2VecEmbeddings_init_def load_model_def
          empty_disk_def)
  have r: "fst ?R = Inl GensimError"
    by (simp add: s0 add_document_def fit_def stub_def preprocess_text_def enumerate_eq_zip
          Let_def)
  then have h: "?R = (Inl GensimError, fst (snd ?R), snd (snd ?R))"
    by (metis prod.collapse)
  have a: "lengths_agree ?s0 \<and> \<not> exists ?s0 ''S'' \<and> [(''only one chunk'', 1::int)] \<noteq> []"
    by (simp add: s0 lengths_agree_def chunk_total_def exists_def)
  from add_document_failure_not_atomic[OF h] a
  have "exists (fst (snd ?R)) ''S''" "doc_ids (fst (snd ?R)) = doc_ids ?s0"
    "\<not> lengths_agree (fst (snd ?R))"
    by blast+
  with r show ?thesis by (simp add: s0)
qed

end
